theory Spec2Isabelle
  imports
    Main
    "HOL-Library.AList"
    "HOL-Library.Char_ord"
    "HOL-Library.List_Lexorder"
    "HOL-Library.Multiset"
    "HOL-Library.Sublist"
begin

section \<open>S21 monitor: command tracking, diff highlighting, truncation\<close>

text \<open>
  A shallow embedding of \<^verbatim>\<open>src/s21_common.py\<close>: the class
  \<^verbatim>\<open>S21CommandTracker\<close> and the functions \<^verbatim>\<open>highlight_diff\<close> and
  \<^verbatim>\<open>truncate_value\<close>.

  Python strings are modelled as \<^typ>\<open>string\<close>, a list of characters; \<^verbatim>\<open>len\<close> is
  \<^const>\<open>length\<close> and \<^verbatim>\<open>==\<close> is equality of lists. A \<^typ>\<open>char\<close> is one of 256
  values, compared by its code as Python compares code points. The \<^verbatim>\<open>datetime\<close> of a
  timestamp is opaque to the tracker (stored and copied, never inspected), so it is a type
  parameter \<open>'t\<close>.
\<close>

subsection \<open>The tracker's data\<close>

text \<open>
  The inner dictionary stored per command,
  \<^verbatim>\<open>{'value': ..., 'direction': ..., 'timestamp': ..., 'dump': ...}\<close>.
  Every stored dictionary has all four keys, so \<^verbatim>\<open>.get('dump', '')\<close> reads the
  field.
\<close>

record 't command_state =
  cs_value :: string
  cs_direction :: string
  cs_timestamp :: 't
  cs_dump :: string

text \<open>The dictionary appended to \<^verbatim>\<open>recent_changes\<close>.\<close>

record 't change_record =
  cr_command :: string
  cr_old_value :: string
  cr_new_value :: string
  cr_old_dump :: string
  cr_new_dump :: string
  cr_direction :: string
  cr_timestamp :: 't
  cr_value_changed :: bool
  cr_dump_changed :: bool

text \<open>
  The object's two attributes. \<^verbatim>\<open>self.commands\<close> is a Python dictionary: keys are
  unique and kept in insertion order, so it is an association list, read with
  \<^const>\<open>map_of\<close> and written with \<^const>\<open>AList.update\<close> (which replaces the value
  of a key in place and puts a new key at the end, as the dictionary does).
\<close>

record 't tracker =
  commands :: "(string \<times> 't command_state) list"
  recent_changes :: "'t change_record list"

definition init_tracker :: "'t tracker" where
  "init_tracker = \<lparr>commands = [], recent_changes = []\<rparr>"

subsection \<open>\<^verbatim>\<open>update_command\<close>\<close>

text \<open>
  The state is passed in and returned with the result. \<open>old_value\<close> is \<open>None\<close> until
  the command is found, as in the source; the record is built only where the source's
  guard \<^verbatim>\<open>changed and old_value is not None and (value_changed or dump_changed)\<close>
  holds. \<^verbatim>\<open>pop(0)\<close> on the non-empty list is \<^const>\<open>tl\<close>.
\<close>

definition update_command ::
  "'t tracker \<Rightarrow> string \<Rightarrow> string \<Rightarrow> string \<Rightarrow> 't \<Rightarrow> string \<Rightarrow> bool \<times> 't tracker" where
  "update_command s command val direction timestamp dump =
     (let (old_value, old_dump, value_changed, dump_changed, changed) =
            (case map_of (commands s) command of
               Some st \<Rightarrow>
                 (Some (cs_value st), cs_dump st,
                  cs_value st \<noteq> val, cs_dump st \<noteq> dump,
                  (cs_value st \<noteq> val \<or> cs_dump st \<noteq> dump \<or> cs_direction st \<noteq> direction))
             | None \<Rightarrow> (None, [], True, True, True));
          changes =
            (case old_value of
               Some ov \<Rightarrow>
                 if changed \<and> (value_changed \<or> dump_changed) then
                   (let appended = recent_changes s @
                          [\<lparr>cr_command = command, cr_old_value = ov, cr_new_value = val,
                            cr_old_dump = old_dump, cr_new_dump = dump,
                            cr_direction = direction, cr_timestamp = timestamp,
                            cr_value_changed = value_changed,
                            cr_dump_changed = dump_changed\<rparr>]
                    in if length appended > 5 then tl appended else appended)
                 else recent_changes s
             | None \<Rightarrow> recent_changes s)
      in (changed,
          \<lparr>commands = AList.update command
               \<lparr>cs_value = val, cs_direction = direction,
                cs_timestamp = timestamp, cs_dump = dump\<rparr> (commands s),
           recent_changes = changes\<rparr>))"

text \<open>One call of \<^verbatim>\<open>update_command\<close>, as its five arguments.\<close>

record 't call =
  c_command :: string
  c_value :: string
  c_direction :: string
  c_timestamp :: 't
  c_dump :: string

definition apply_call :: "'t tracker \<Rightarrow> 't call \<Rightarrow> bool \<times> 't tracker" where
  "apply_call s u =
     update_command s (c_command u) (c_value u) (c_direction u) (c_timestamp u) (c_dump u)"

text \<open>The tracker after a sequence of calls on a freshly constructed object.\<close>

definition run_calls :: "'t call list \<Rightarrow> 't tracker" where
  "run_calls us = fold (\<lambda>u s. snd (apply_call s u)) us init_tracker"

text \<open>The state a call stores, and the record it appends over a prior state.\<close>

definition state_of_call :: "'t call \<Rightarrow> 't command_state" where
  "state_of_call u =
     \<lparr>cs_value = c_value u, cs_direction = c_direction u,
      cs_timestamp = c_timestamp u, cs_dump = c_dump u\<rparr>"

definition change_of_call :: "'t command_state \<Rightarrow> 't call \<Rightarrow> 't change_record" where
  "change_of_call st u =
     \<lparr>cr_command = c_command u, cr_old_value = cs_value st, cr_new_value = c_value u,
      cr_old_dump = cs_dump st, cr_new_dump = c_dump u,
      cr_direction = c_direction u, cr_timestamp = c_timestamp u,
      cr_value_changed = (cs_value st \<noteq> c_value u),
      cr_dump_changed = (cs_dump st \<noteq> c_dump u)\<rparr>"

subsection \<open>\<^verbatim>\<open>get_sorted_commands\<close>\<close>

text \<open>
  \<^verbatim>\<open>sorted(self.commands.items())\<close> orders the pairs as tuples. The keys of a
  dictionary are pairwise different, so the order of two pairs is decided by their keys and
  the inner dictionaries are never compared. The sort is stable, as Python's is.
\<close>

definition get_sorted_commands :: "'t tracker \<Rightarrow> (string \<times> 't command_state) list" where
  "get_sorted_commands s = sort_key fst (commands s)"

subsection \<open>\<^verbatim>\<open>highlight_diff\<close>\<close>

definition INVERT :: string where
  "INVERT = [CHR 0x1B, CHR ''['', CHR ''7'', CHR ''m'']"

definition RESET :: string where
  "RESET = [CHR 0x1B, CHR ''['', CHR ''0'', CHR ''m'']"

text \<open>\<^verbatim>\<open>s[i] if i < len(s) else ''\<close>: a string of one character, or the empty string.\<close>

definition char_at :: "string \<Rightarrow> nat \<Rightarrow> string" where
  "char_at s i = (if i < length s then [s ! i] else [])"

text \<open>
  The body of the loop, on the two lists of pieces \<^verbatim>\<open>old_result\<close> and
  \<^verbatim>\<open>new_result\<close>.
\<close>

definition highlight_step :: "string \<Rightarrow> string \<Rightarrow> nat \<Rightarrow> string list \<times> string list \<Rightarrow> string list \<times> string list" where
  "highlight_step old_str new_str i acc =
     (let old_result = fst acc; new_result = snd acc;
          old_char = char_at old_str i; new_char = char_at new_str i
      in if old_char \<noteq> new_char then
           (if old_char \<noteq> [] then old_result @ [INVERT @ old_char @ RESET] else old_result,
            if new_char \<noteq> [] then new_result @ [INVERT @ new_char @ RESET] else new_result)
         else (old_result @ [old_char], new_result @ [new_char]))"

definition highlight_diff :: "string \<Rightarrow> string \<Rightarrow> string \<times> string" where
  "highlight_diff old_str new_str =
     (if old_str = new_str then (old_str, new_str)
      else
        (let max_len = max (length old_str) (length new_str);
             res = fold (highlight_step old_str new_str) [0..<max_len] ([], [])
         in (concat (fst res), concat (snd res))))"

subsection \<open>\<^verbatim>\<open>truncate_value\<close>\<close>

text \<open>
  \<^verbatim>\<open>value[:k]\<close> for an integer \<open>k\<close>: the first \<open>k\<close> characters, and for a negative
  \<open>k\<close> all but the last \<open>-k\<close>.
\<close>

definition slice_to :: "string \<Rightarrow> int \<Rightarrow> string" where
  "slice_to s k = (if 0 \<le> k then take (nat k) s else take (length s - nat (- k)) s)"

definition truncate_value :: "string \<Rightarrow> int \<Rightarrow> string" where
  "truncate_value val max_length =
     (if int (length val) > max_length then slice_to val (max_length - 3) @ ''...''
      else val)"

section \<open>What the properties are stated with\<close>

subsection \<open>Sequences of calls\<close>

text \<open>The most recent call for a command in a sequence of calls, if there is one.\<close>

definition last_call :: "string \<Rightarrow> 't call list \<Rightarrow> 't call option" where
  "last_call c us = List.find (\<lambda>u. c_command u = c) (rev us)"

subsection \<open>Marking position by position\<close>

text \<open>
  The marking as the specification words it, to be compared with the loop of
  \<^verbatim>\<open>highlight_diff\<close>: at position \<open>i\<close> the string \<open>a\<close> shows nothing when it has
  no character there, its character as it is when \<open>b\<close> has the same character there, and
  its character between the two markers otherwise (\<open>b\<close> has another character, or none).
\<close>

definition marked :: "string \<Rightarrow> string \<Rightarrow> nat \<Rightarrow> string" where
  "marked a b i =
     (if i < length a then
        (if i < length b \<and> a ! i = b ! i then [a ! i] else INVERT @ [a ! i] @ RESET)
      else [])"

definition positionwise_marking :: "string \<Rightarrow> string \<Rightarrow> string" where
  "positionwise_marking a b = concat (map (marked a b) [0..<max (length a) (length b)])"

subsection \<open>Stripping the markers\<close>

text \<open>
  Deleting every occurrence of a non-empty pattern, scanning from the left and continuing
  after each occurrence, as \<^verbatim>\<open>str.replace(pat, '')\<close> does. Stripping the markers
  deletes the occurrences of \<^const>\<open>INVERT\<close> and then those of \<^const>\<open>RESET\<close>.
\<close>

fun remove_all :: "string \<Rightarrow> string \<Rightarrow> string" where
  "remove_all pat [] = []"
| "remove_all pat (c # cs) =
     (if pat \<noteq> [] \<and> prefix pat (c # cs) then remove_all pat (drop (length pat) (c # cs))
      else c # remove_all pat cs)"

definition strip_markers :: "string \<Rightarrow> string" where
  "strip_markers s = remove_all RESET (remove_all INVERT s)"

text \<open>A pattern occurs in a string when it is a prefix of one of its suffixes.\<close>

fun occurs_in :: "string \<Rightarrow> string \<Rightarrow> bool" where
  "occurs_in pat [] = (pat = [])"
| "occurs_in pat (c # cs) = (prefix pat (c # cs) \<or> occurs_in pat cs)"

text \<open>
  A marked string as a list of characters, each with the flag "is wrapped"; the same
  list once the occurrences of \<^const>\<open>INVERT\<close> are gone; and once those of
  \<^const>\<open>RESET\<close> are gone instead.
\<close>

fun render :: "(bool \<times> char) list \<Rightarrow> string" where
  "render [] = []"
| "render ((b, c) # ts) = (if b then INVERT @ [c] @ RESET else [c]) @ render ts"

fun render_tail :: "(bool \<times> char) list \<Rightarrow> string" where
  "render_tail [] = []"
| "render_tail ((b, c) # ts) = c # (if b then RESET else []) @ render_tail ts"

fun render_head :: "(bool \<times> char) list \<Rightarrow> string" where
  "render_head [] = []"
| "render_head ((b, c) # ts) = (if b then INVERT else []) @ c # render_head ts"

subsection \<open>Concrete trackers and calls\<close>

text \<open>A tracker holding one command.\<close>

definition demo_tracker :: "nat tracker" where
  "demo_tracker =
     \<lparr>commands = [(''D1'', \<lparr>cs_value = ''3031'', cs_direction = ''RX'',
                             cs_timestamp = 7, cs_dump = ''ab''\<rparr>)],
      recent_changes = []\<rparr>"

text \<open>
  Calls for two commands, with an empty and a malformed direction among them; calls that
  arrive out of alphabetical order; and calls that change the value of one command.
\<close>

definition demo_calls :: "nat call list" where
  "demo_calls =
     [\<lparr>c_command = ''D1'', c_value = ''00'', c_direction = ''RX'', c_timestamp = 1, c_dump = ''''\<rparr>,
      \<lparr>c_command = ''F2'', c_value = ''41'', c_direction = ''TX'', c_timestamp = 2, c_dump = ''x''\<rparr>,
      \<lparr>c_command = ''D1'', c_value = ''01'', c_direction = '''', c_timestamp = 3, c_dump = ''''\<rparr>,
      \<lparr>c_command = ''D1'', c_value = '''', c_direction = ''??'', c_timestamp = 0, c_dump = ''y''\<rparr>]"

definition shuffled_calls :: "nat call list" where
  "shuffled_calls =
     [\<lparr>c_command = ''F2'', c_value = ''41'', c_direction = ''TX'', c_timestamp = 1, c_dump = ''x''\<rparr>,
      \<lparr>c_command = ''D1'', c_value = ''00'', c_direction = ''RX'', c_timestamp = 2, c_dump = ''''\<rparr>,
      \<lparr>c_command = ''D10'', c_value = ''07'', c_direction = ''RX'', c_timestamp = 3, c_dump = ''''\<rparr>,
      \<lparr>c_command = ''F2'', c_value = ''42'', c_direction = ''TX'', c_timestamp = 4, c_dump = ''x''\<rparr>]"

definition d1_call :: "string \<Rightarrow> nat \<Rightarrow> nat call" where
  "d1_call v t =
     \<lparr>c_command = ''D1'', c_value = v, c_direction = ''RX'', c_timestamp = t, c_dump = ''''\<rparr>"

definition six_calls :: "nat call list" where
  "six_calls = [d1_call ''00'' 0, d1_call ''01'' 1, d1_call ''02'' 2, d1_call ''03'' 3,
                d1_call ''04'' 4, d1_call ''05'' 5]"

definition scenario_calls :: "nat call list" where
  "scenario_calls = [d1_call ''00'' 0, d1_call ''01'' 1, d1_call ''01'' 2]"

section \<open>Properties\<close>

subsection \<open>Single calls\<close>

lemma update_command_absent:
  assumes "map_of (commands s) c = None"
  shows "update_command s c v d t dmp =
    (True, \<lparr>commands = AList.update c
                \<lparr>cs_value = v, cs_direction = d, cs_timestamp = t, cs_dump = dmp\<rparr> (commands s),
            recent_changes = recent_changes s\<rparr>)"
  using assms by (simp add: update_command_def)

lemma update_command_commands:
  "commands (snd (update_command s c v d t dmp)) =
     AList.update c \<lparr>cs_value = v, cs_direction = d, cs_timestamp = t, cs_dump = dmp\<rparr> (commands s)"
  by (simp add: update_command_def Let_def split: option.split prod.split)

lemma commands_apply_call:
  "commands (snd (apply_call s u)) = AList.update (c_command u) (state_of_call u) (commands s)"
  by (simp add: apply_call_def state_of_call_def update_command_commands)

lemma recent_changes_apply_call:
  "recent_changes (snd (apply_call s u)) =
     (case map_of (commands s) (c_command u) of
        None \<Rightarrow> recent_changes s
      | Some st \<Rightarrow>
          if cs_value st \<noteq> c_value u \<or> cs_dump st \<noteq> c_dump u then
            (if 5 \<le> length (recent_changes s)
             then tl (recent_changes s @ [change_of_call st u])
             else recent_changes s @ [change_of_call st u])
          else recent_changes s)"
  by (auto simp add: apply_call_def update_command_def change_of_call_def Let_def
      split: option.split)

lemma fst_apply_call:
  "fst (apply_call s u) =
     (case map_of (commands s) (c_command u) of
        None \<Rightarrow> True
      | Some st \<Rightarrow> cs_value st \<noteq> c_value u \<or> cs_dump st \<noteq> c_dump u
                   \<or> cs_direction st \<noteq> c_direction u)"
  by (simp add: apply_call_def update_command_def Let_def split: option.split)

subsection \<open>Sequences of calls\<close>

lemma run_calls_Nil: "run_calls [] = init_tracker"
  by (simp add: run_calls_def)

lemma run_calls_snoc: "run_calls (us @ [u]) = snd (apply_call (run_calls us) u)"
  by (simp add: run_calls_def)

lemma last_call_Nil: "last_call c [] = None"
  by (simp add: last_call_def)

lemma last_call_snoc:
  "last_call c (us @ [u]) = (if c_command u = c then Some u else last_call c us)"
  by (simp add: last_call_def)

lemma distinct_commands_run: "distinct (map fst (commands (run_calls us)))"
  by (induction us rule: rev_induct)
     (simp_all add: run_calls_Nil run_calls_snoc init_tracker_def commands_apply_call
        distinct_update)

lemma keys_commands_run: "set (map fst (commands (run_calls us))) = c_command ` set us"
  by (induction us rule: rev_induct)
     (auto simp add: run_calls_Nil run_calls_snoc init_tracker_def commands_apply_call
        dom_update)

lemma map_of_commands_run:
  "map_of (commands (run_calls us)) c = map_option state_of_call (last_call c us)"
  by (induction us rule: rev_induct)
     (simp_all add: run_calls_Nil run_calls_snoc init_tracker_def commands_apply_call
        update_conv' last_call_Nil last_call_snoc)

text \<open>
  Claim C1 (last write wins). After any sequence of \<^verbatim>\<open>update_command\<close> calls on a
  new tracker, with arbitrary strings for value, dump and direction, the keys of the
  mapping are pairwise different and are exactly the commands seen; and the state stored
  for a command is the value, direction, timestamp and dump of the most recent call for
  that command (and nothing is stored for a command that was never seen).
\<close>

theorem last_write_wins:
  "distinct (map fst (commands (run_calls us)))
 \<and> set (map fst (commands (run_calls us))) = c_command ` set us
 \<and> map_of (commands (run_calls us)) c = map_option state_of_call (last_call c us)"
  by (simp only: distinct_commands_run keys_commands_run map_of_commands_run simp_thms)

theorem last_write_wins_witness:
  "map fst (commands (run_calls demo_calls)) = [''D1'', ''F2'']
 \<and> map_of (commands (run_calls demo_calls)) ''D1'' =
      Some \<lparr>cs_value = '''', cs_direction = ''??'', cs_timestamp = 0, cs_dump = ''y''\<rparr>
 \<and> map_of (commands (run_calls demo_calls)) ''F2'' =
      Some \<lparr>cs_value = ''41'', cs_direction = ''TX'', cs_timestamp = 2, cs_dump = ''x''\<rparr>
 \<and> map_of (commands (run_calls demo_calls)) ''G3'' = None"
  using last_write_wins [of demo_calls "''D1''"] last_write_wins [of demo_calls "''F2''"]
    last_write_wins [of demo_calls "''G3''"]
  by (simp add: demo_calls_def run_calls_def apply_call_def update_command_commands
      init_tracker_def last_call_def state_of_call_def)

subsection \<open>The change history\<close>

lemma history_bound_step:
  "length (recent_changes s) \<le> 5 \<Longrightarrow> length (recent_changes (snd (apply_call s u))) \<le> 5"
  by (simp add: recent_changes_apply_call split: option.split)

lemma history_bound_run: "length (recent_changes (run_calls us)) \<le> 5"
  by (induction us rule: rev_induct)
     (simp_all add: run_calls_Nil run_calls_snoc init_tracker_def history_bound_step)

lemma history_evict:
  assumes "map_of (commands s) (c_command u) = Some st"
    and "cs_value st \<noteq> c_value u \<or> cs_dump st \<noteq> c_dump u"
    and "length (recent_changes s) = 5"
  shows "recent_changes (snd (apply_call s u)) = tl (recent_changes s) @ [change_of_call st u]"
proof -
  from assms(3) have "recent_changes s \<noteq> []" by auto
  with assms show ?thesis
    by (simp add: recent_changes_apply_call)
qed

lemma history_append:
  assumes "map_of (commands s) (c_command u) = Some st"
    and "cs_value st \<noteq> c_value u \<or> cs_dump st \<noteq> c_dump u"
    and "length (recent_changes s) < 5"
  shows "recent_changes (snd (apply_call s u)) = recent_changes s @ [change_of_call st u]"
  using assms by (simp add: recent_changes_apply_call)

lemma six_calls_commands:
  "commands (run_calls six_calls) =
     [(''D1'', \<lparr>cs_value = ''05'', cs_direction = ''RX'', cs_timestamp = 5, cs_dump = ''''\<rparr>)]"
  by (simp add: six_calls_def d1_call_def run_calls_def apply_call_def update_command_commands
      init_tracker_def)

lemma six_calls_history:
  "map cr_new_value (recent_changes (run_calls six_calls)) = [''01'', ''02'', ''03'', ''04'', ''05'']"
  by (simp add: six_calls_def d1_call_def run_calls_def apply_call_def update_command_def
      init_tracker_def)

text \<open>
  Claim C2 (bounded FIFO history). After any sequence of calls the history has at most 5
  records. When the history holds 5 records and a call changes the value or the dump of a
  tracked command, the new history is the old one without its first (oldest) record,
  followed by the new record: it still has 5 records, the new record is the last, and the
  survivors keep their order. With fewer than 5 records, the new record is appended.
\<close>

theorem bounded_fifo_history:
  "length (recent_changes (run_calls us)) \<le> 5
 \<and> (map_of (commands s) (c_command u) = Some st
      \<and> (cs_value st \<noteq> c_value u \<or> cs_dump st \<noteq> c_dump u)
      \<and> length (recent_changes s) = 5
    \<longrightarrow> recent_changes (snd (apply_call s u)) = tl (recent_changes s) @ [change_of_call st u]
      \<and> length (recent_changes (snd (apply_call s u))) = 5
      \<and> last (recent_changes (snd (apply_call s u))) = change_of_call st u
      \<and> butlast (recent_changes (snd (apply_call s u))) = tl (recent_changes s))
 \<and> (map_of (commands s) (c_command u) = Some st
      \<and> (cs_value st \<noteq> c_value u \<or> cs_dump st \<noteq> c_dump u)
      \<and> length (recent_changes s) < 5
    \<longrightarrow> recent_changes (snd (apply_call s u)) = recent_changes s @ [change_of_call st u])"
proof (intro conjI impI)
  show "length (recent_changes (run_calls us)) \<le> 5" by (rule history_bound_run)
next
  assume a: "map_of (commands s) (c_command u) = Some st
      \<and> (cs_value st \<noteq> c_value u \<or> cs_dump st \<noteq> c_dump u)
      \<and> length (recent_changes s) = 5"
  then have e: "recent_changes (snd (apply_call s u)) = tl (recent_changes s) @ [change_of_call st u]"
    by (simp add: history_evict)
  show "recent_changes (snd (apply_call s u)) = tl (recent_changes s) @ [change_of_call st u]"
    by (rule e)
  show "length (recent_changes (snd (apply_call s u))) = 5"
    using a by (simp add: e)
  show "last (recent_changes (snd (apply_call s u))) = change_of_call st u"
    by (simp add: e)
  show "butlast (recent_changes (snd (apply_call s u))) = tl (recent_changes s)"
    by (simp add: e)
next
  assume "map_of (commands s) (c_command u) = Some st
      \<and> (cs_value st \<noteq> c_value u \<or> cs_dump st \<noteq> c_dump u)
      \<and> length (recent_changes s) < 5"
  then show "recent_changes (snd (apply_call s u)) = recent_changes s @ [change_of_call st u]"
    by (simp add: history_append)
qed

theorem bounded_fifo_history_witness:
  "map cr_new_value (recent_changes (run_calls six_calls)) = [''01'', ''02'', ''03'', ''04'', ''05'']
 \<and> map cr_new_value (recent_changes (snd (apply_call (run_calls six_calls) (d1_call ''06'' 6)))) =
       [''02'', ''03'', ''04'', ''05'', ''06'']"
proof -
  let ?st = "\<lparr>cs_value = ''05'', cs_direction = ''RX'', cs_timestamp = 5::nat, cs_dump = ''''\<rparr>"
  have a: "map_of (commands (run_calls six_calls)) (c_command (d1_call ''06'' 6)) = Some ?st"
    by (simp add: six_calls_commands d1_call_def)
  have b: "cs_value ?st \<noteq> c_value (d1_call ''06'' 6) \<or> cs_dump ?st \<noteq> c_dump (d1_call ''06'' 6)"
    by (simp add: d1_call_def)
  have l: "length (map cr_new_value (recent_changes (run_calls six_calls))) = 5"
    by (simp only: six_calls_history) simp
  then have c: "length (recent_changes (run_calls six_calls)) = 5" by simp
  from bounded_fifo_history [of six_calls "run_calls six_calls" "d1_call ''06'' 6" ?st] a b c
  have "recent_changes (snd (apply_call (run_calls six_calls) (d1_call ''06'' 6))) =
          tl (recent_changes (run_calls six_calls)) @ [change_of_call ?st (d1_call ''06'' 6)]"
    by blast
  then have "map cr_new_value (recent_changes (snd (apply_call (run_calls six_calls) (d1_call ''06'' 6)))) =
       tl (map cr_new_value (recent_changes (run_calls six_calls))) @ [''06'']"
    by (simp add: map_tl change_of_call_def d1_call_def)
  then show ?thesis by (simp add: six_calls_history)
qed

lemma history_provenance:
  "\<forall>r \<in> set (recent_changes (run_calls us)).
     \<exists>us1 u us2 st. us = us1 @ u # us2
       \<and> map_of (commands (run_calls us1)) (c_command u) = Some st
       \<and> r = change_of_call st u
       \<and> (cs_value st \<noteq> c_value u \<or> cs_dump st \<noteq> c_dump u)"
proof (induction us rule: rev_induct)
  case Nil
  show ?case by (simp add: run_calls_Nil init_tracker_def)
next
  case (snoc x xs)
  show ?case
  proof
    fix r
    assume r: "r \<in> set (recent_changes (run_calls (xs @ [x])))"
    let ?P = "\<lambda>us r. \<exists>us1 u us2 st. us = us1 @ u # us2
       \<and> map_of (commands (run_calls us1)) (c_command u) = Some st
       \<and> r = change_of_call st u
       \<and> (cs_value st \<noteq> c_value u \<or> cs_dump st \<noteq> c_dump u)"
    have old: "?P (xs @ [x]) r" if "r \<in> set (recent_changes (run_calls xs))"
    proof -
      from snoc.IH that obtain us1 u us2 st where
        h: "xs = us1 @ u # us2" "map_of (commands (run_calls us1)) (c_command u) = Some st"
           "r = change_of_call st u" "cs_value st \<noteq> c_value u \<or> cs_dump st \<noteq> c_dump u"
        by blast
      from h(1) have "xs @ [x] = us1 @ u # (us2 @ [x])" by simp
      with h(2,3,4) show ?thesis by blast
    qed
    show "?P (xs @ [x]) r"
    proof (cases "map_of (commands (run_calls xs)) (c_command x)")
      case None
      with r have "r \<in> set (recent_changes (run_calls xs))"
        by (simp add: run_calls_snoc recent_changes_apply_call)
      then show ?thesis by (rule old)
    next
      case (Some st)
      show ?thesis
      proof (cases "cs_value st \<noteq> c_value x \<or> cs_dump st \<noteq> c_dump x")
        case False
        with r Some have "r \<in> set (recent_changes (run_calls xs))"
          by (simp add: run_calls_snoc recent_changes_apply_call)
        then show ?thesis by (rule old)
      next
        case True
        have "set (tl (recent_changes (run_calls xs) @ [change_of_call st x]))
                \<subseteq> set (recent_changes (run_calls xs) @ [change_of_call st x])"
          by (cases "recent_changes (run_calls xs) @ [change_of_call st x]") auto
        with r Some True have "r = change_of_call st x \<or> r \<in> set (recent_changes (run_calls xs))"
          by (auto simp add: run_calls_snoc recent_changes_apply_call split: if_splits)
        then show ?thesis
        proof
          assume "r = change_of_call st x"
          with Some True have "xs @ [x] = xs @ x # [] \<and>
             map_of (commands (run_calls xs)) (c_command x) = Some st \<and>
             r = change_of_call st x \<and> (cs_value st \<noteq> c_value x \<or> cs_dump st \<noteq> c_dump x)"
            by simp
          then show ?thesis by blast
        next
          assume "r \<in> set (recent_changes (run_calls xs))"
          then show ?thesis by (rule old)
        qed
      qed
    qed
  qed
qed

text \<open>
  Claim C3 (first-seen command). A call for a command that is not in the mapping returns
  true and leaves the history as it was. Consequently every record of the history of a
  tracker built by a sequence of calls comes from one call of that sequence, made when
  the command already had a state, and the value or the dump of that state differs from
  the call's.
\<close>

theorem first_seen_command:
  "(map_of (commands s) c = None \<longrightarrow>
      fst (update_command s c v d t dmp) = True
      \<and> recent_changes (snd (update_command s c v d t dmp)) = recent_changes s)
 \<and> (\<forall>r \<in> set (recent_changes (run_calls us)).
       \<exists>us1 u us2 st. us = us1 @ u # us2
         \<and> map_of (commands (run_calls us1)) (c_command u) = Some st
         \<and> r = change_of_call st u
         \<and> (cs_value st \<noteq> c_value u \<or> cs_dump st \<noteq> c_dump u))"
  using history_provenance [of us] by (simp add: update_command_absent)

theorem first_seen_command_witness:
  "update_command init_tracker ''D1'' ''00'' ''RX'' (0::nat) '''' =
     (True,
      \<lparr>commands = [(''D1'', \<lparr>cs_value = ''00'', cs_direction = ''RX'',
                              cs_timestamp = 0, cs_dump = ''''\<rparr>)],
       recent_changes = []\<rparr>)
 \<and> recent_changes (run_calls scenario_calls) =
      [\<lparr>cr_command = ''D1'', cr_old_value = ''00'', cr_new_value = ''01'',
        cr_old_dump = '''', cr_new_dump = '''', cr_direction = ''RX'', cr_timestamp = 1,
        cr_value_changed = True, cr_dump_changed = False\<rparr>]
 \<and> (\<exists>us1 u us2 st. scenario_calls = us1 @ u # us2
       \<and> map_of (commands (run_calls us1)) (c_command u) = Some st
       \<and> cr_old_value (hd (recent_changes (run_calls scenario_calls))) = cs_value st
       \<and> cs_value st \<noteq> c_value u)"
proof -
  have h: "recent_changes (run_calls scenario_calls) =
      [\<lparr>cr_command = ''D1'', cr_old_value = ''00'', cr_new_value = ''01'',
        cr_old_dump = '''', cr_new_dump = '''', cr_direction = ''RX'', cr_timestamp = 1,
        cr_value_changed = True, cr_dump_changed = False\<rparr>]"
    by (simp add: scenario_calls_def d1_call_def run_calls_def apply_call_def update_command_def
        init_tracker_def)
  have a: "map_of (commands (init_tracker :: nat tracker)) ''D1'' = None"
    by (simp add: init_tracker_def)
  from first_seen_command [of init_tracker "''D1''" "''00''" "''RX''" "0::nat" "''''" scenario_calls] a
  have f: "fst (update_command init_tracker ''D1'' ''00'' ''RX'' (0::nat) '''') = True
     \<and> recent_changes (snd (update_command init_tracker ''D1'' ''00'' ''RX'' (0::nat) '''')) =
         recent_changes (init_tracker :: nat tracker)"
    and p: "\<forall>r \<in> set (recent_changes (run_calls scenario_calls)).
       \<exists>us1 u us2 st. scenario_calls = us1 @ u # us2
         \<and> map_of (commands (run_calls us1)) (c_command u) = Some st
         \<and> r = change_of_call st u
         \<and> (cs_value st \<noteq> c_value u \<or> cs_dump st \<noteq> c_dump u)"
    by blast+
  have m: "hd (recent_changes (run_calls scenario_calls)) \<in> set (recent_changes (run_calls scenario_calls))"
    by (simp add: h)
  from p m obtain us1 u us2 st where
    q: "scenario_calls = us1 @ u # us2"
       "map_of (commands (run_calls us1)) (c_command u) = Some st"
       "hd (recent_changes (run_calls scenario_calls)) = change_of_call st u"
       "cs_value st \<noteq> c_value u \<or> cs_dump st \<noteq> c_dump u"
    by blast
  from q(3) have r: "cr_old_value (hd (recent_changes (run_calls scenario_calls))) = cs_value st"
    by (simp add: change_of_call_def)
  from q(3) have "cr_dump_changed (hd (recent_changes (run_calls scenario_calls))) = (cs_dump st \<noteq> c_dump u)"
    by (simp add: change_of_call_def)
  then have "cs_dump st = c_dump u" by (simp add: h)
  with q(4) have "cs_value st \<noteq> c_value u" by simp
  with q(1,2) r have e: "\<exists>us1 u us2 st. scenario_calls = us1 @ u # us2
       \<and> map_of (commands (run_calls us1)) (c_command u) = Some st
       \<and> cr_old_value (hd (recent_changes (run_calls scenario_calls))) = cs_value st
       \<and> cs_value st \<noteq> c_value u"
    by blast
  have u: "update_command init_tracker ''D1'' ''00'' ''RX'' (0::nat) '''' =
     (True,
      \<lparr>commands = [(''D1'', \<lparr>cs_value = ''00'', cs_direction = ''RX'',
                              cs_timestamp = 0, cs_dump = ''''\<rparr>)],
       recent_changes = []\<rparr>)"
    using f by (simp add: prod_eq_iff tracker.equality update_command_commands init_tracker_def)
  from u h e show ?thesis by blast
qed

subsection \<open>Direction-only and unchanged updates\<close>

text \<open>
  Claim C4 (direction-only change). For a tracked command, \<^verbatim>\<open>update_command\<close> with
  the stored value and dump but another direction returns true, overwrites the stored state
  with the new direction and timestamp, and leaves the change history as it was.
\<close>

theorem direction_only_change:
  assumes "map_of (commands s) c = Some st" and "cs_direction st \<noteq> d"
  shows "fst (update_command s c (cs_value st) d t (cs_dump st)) = True
       \<and> commands (snd (update_command s c (cs_value st) d t (cs_dump st))) =
           AList.update c \<lparr>cs_value = cs_value st, cs_direction = d,
                            cs_timestamp = t, cs_dump = cs_dump st\<rparr> (commands s)
       \<and> map_of (commands (snd (update_command s c (cs_value st) d t (cs_dump st)))) c =
           Some \<lparr>cs_value = cs_value st, cs_direction = d,
                 cs_timestamp = t, cs_dump = cs_dump st\<rparr>
       \<and> recent_changes (snd (update_command s c (cs_value st) d t (cs_dump st))) =
           recent_changes s"
  using assms by (simp add: update_command_def update_conv')

theorem direction_only_change_witness:
  "update_command demo_tracker ''D1'' ''3031'' ''TX'' 9 ''ab'' =
     (True,
      \<lparr>commands = [(''D1'', \<lparr>cs_value = ''3031'', cs_direction = ''TX'',
                              cs_timestamp = 9, cs_dump = ''ab''\<rparr>)],
       recent_changes = []\<rparr>)"
proof -
  let ?st = "\<lparr>cs_value = ''3031'', cs_direction = ''RX'',
              cs_timestamp = 7::nat, cs_dump = ''ab''\<rparr>"
  have a: "map_of (commands demo_tracker) ''D1'' = Some ?st"
    by (simp add: demo_tracker_def)
  have b: "cs_direction ?st \<noteq> ''TX''" by simp
  from direction_only_change [OF a b, of 9]
  show ?thesis
    by (simp add: demo_tracker_def prod_eq_iff tracker.equality)
qed

text \<open>
  Claim C5 (no-op update frame). For a tracked command, \<^verbatim>\<open>update_command\<close> with
  value, dump and direction all equal to the stored ones returns false; the history is
  unchanged, the command's state is the old one with the timestamp replaced by the new
  argument, every other command keeps its state, and the keys keep their order.
\<close>

theorem noop_update_frame:
  assumes "map_of (commands s) c = Some st"
  shows "fst (update_command s c (cs_value st) (cs_direction st) t (cs_dump st)) = False
       \<and> recent_changes (snd (update_command s c (cs_value st) (cs_direction st) t (cs_dump st))) =
           recent_changes s
       \<and> commands (snd (update_command s c (cs_value st) (cs_direction st) t (cs_dump st))) =
           AList.update c (st\<lparr>cs_timestamp := t\<rparr>) (commands s)
       \<and> map_of (commands (snd (update_command s c (cs_value st) (cs_direction st) t (cs_dump st)))) =
           (map_of (commands s))(c \<mapsto> st\<lparr>cs_timestamp := t\<rparr>)
       \<and> map fst (commands (snd (update_command s c (cs_value st) (cs_direction st) t (cs_dump st)))) =
           map fst (commands s)"
proof -
  have eq: "\<lparr>cs_value = cs_value st, cs_direction = cs_direction st,
             cs_timestamp = t, cs_dump = cs_dump st\<rparr> = st\<lparr>cs_timestamp := t\<rparr>"
    by simp
  have mem: "c \<in> fst ` set (commands s)"
    using assms by (metis domI dom_map_of_conv_image_fst)
  show ?thesis
    using assms mem by (simp add: update_command_def update_conv' update_keys eq)
qed

theorem noop_update_frame_witness:
  "update_command demo_tracker ''D1'' ''3031'' ''RX'' 9 ''ab'' =
     (False,
      \<lparr>commands = [(''D1'', \<lparr>cs_value = ''3031'', cs_direction = ''RX'',
                              cs_timestamp = 9, cs_dump = ''ab''\<rparr>)],
       recent_changes = []\<rparr>)"
proof -
  let ?st = "\<lparr>cs_value = ''3031'', cs_direction = ''RX'',
              cs_timestamp = 7::nat, cs_dump = ''ab''\<rparr>"
  have a: "map_of (commands demo_tracker) ''D1'' = Some ?st"
    by (simp add: demo_tracker_def)
  from noop_update_frame [OF a, of 9]
  show ?thesis
    by (simp add: demo_tracker_def prod_eq_iff tracker.equality)
qed

subsection \<open>The sorted view\<close>

lemma sorted_keys_get_sorted_commands: "sorted (map fst (get_sorted_commands s))"
  by (simp add: get_sorted_commands_def)

lemma mset_get_sorted_commands: "mset (get_sorted_commands s) = mset (commands s)"
  by (simp add: get_sorted_commands_def)

lemma distinct_keys_get_sorted_commands:
  "distinct (map fst (get_sorted_commands s)) = distinct (map fst (commands s))"
proof -
  have "mset (map fst (get_sorted_commands s)) = mset (map fst (commands s))"
    by (simp add: get_sorted_commands_def)
  then show ?thesis by (rule mset_eq_imp_distinct_iff)
qed

lemma shuffled_run: "commands (run_calls shuffled_calls) =
  [(''F2'', \<lparr>cs_value = ''42'', cs_direction = ''TX'', cs_timestamp = 4, cs_dump = ''x''\<rparr>),
      (''D1'', \<lparr>cs_value = ''00'', cs_direction = ''RX'', cs_timestamp = 2, cs_dump = ''''\<rparr>),
      (''D10'', \<lparr>cs_value = ''07'', cs_direction = ''RX'', cs_timestamp = 3, cs_dump = ''''\<rparr>)]"
  by (simp add: shuffled_calls_def run_calls_def apply_call_def update_command_commands
      init_tracker_def)

text \<open>
  Claim C6 (sorted snapshot). For a tracker built by any sequence of calls,
  \<^verbatim>\<open>get_sorted_commands\<close> returns the pairs of the current mapping (the same pairs,
  each once), in strictly ascending lexicographic order of the command; it is computed from
  the mapping it is given, so after one more call it holds the state that call stored.
\<close>

theorem sorted_snapshot:
  "sorted_wrt (<) (map fst (get_sorted_commands (run_calls us)))
 \<and> mset (get_sorted_commands (run_calls us)) = mset (commands (run_calls us))
 \<and> map_of (get_sorted_commands (run_calls us)) c = map_option state_of_call (last_call c us)
 \<and> (c_command u, state_of_call u) \<in> set (get_sorted_commands (run_calls (us @ [u])))"
proof (intro conjI)
  show "sorted_wrt (<) (map fst (get_sorted_commands (run_calls us)))"
    by (simp add: strict_sorted_iff sorted_keys_get_sorted_commands
        distinct_keys_get_sorted_commands distinct_commands_run)
  show m: "mset (get_sorted_commands (run_calls us)) = mset (commands (run_calls us))"
    by (rule mset_get_sorted_commands)
  have d: "distinct (map fst (get_sorted_commands (run_calls us)))"
    by (simp add: distinct_keys_get_sorted_commands distinct_commands_run)
  have "set (get_sorted_commands (run_calls us)) = set (commands (run_calls us))"
    by (simp add: get_sorted_commands_def)
  with d have "map_of (get_sorted_commands (run_calls us)) = map_of (commands (run_calls us))"
    by (intro map_of_inject_set [THEN iffD2]) (simp_all add: distinct_commands_run)
  then show "map_of (get_sorted_commands (run_calls us)) c = map_option state_of_call (last_call c us)"
    by (simp add: map_of_commands_run)
  have "map_of (commands (run_calls (us @ [u]))) (c_command u) = Some (state_of_call u)"
    by (simp add: map_of_commands_run last_call_snoc)
  then have "(c_command u, state_of_call u) \<in> set (commands (run_calls (us @ [u])))"
    by (rule map_of_SomeD)
  then show "(c_command u, state_of_call u) \<in> set (get_sorted_commands (run_calls (us @ [u])))"
    by (simp add: get_sorted_commands_def)
qed

theorem sorted_snapshot_witness:
  "get_sorted_commands (run_calls shuffled_calls) =
     [(''D1'', \<lparr>cs_value = ''00'', cs_direction = ''RX'', cs_timestamp = 2, cs_dump = ''''\<rparr>),
      (''D10'', \<lparr>cs_value = ''07'', cs_direction = ''RX'', cs_timestamp = 3, cs_dump = ''''\<rparr>),
      (''F2'', \<lparr>cs_value = ''42'', cs_direction = ''TX'', cs_timestamp = 4, cs_dump = ''x''\<rparr>)]"
  using sorted_snapshot [of shuffled_calls]
  by (simp add: get_sorted_commands_def shuffled_run less_eq_char_def)

subsection \<open>Highlighting\<close>

lemma highlight_step_fst:
  "concat (fst (highlight_step old new i acc)) = concat (fst acc) @ marked old new i"
  by (auto simp add: highlight_step_def char_at_def marked_def Let_def)

lemma highlight_step_snd:
  "concat (snd (highlight_step old new i acc)) = concat (snd acc) @ marked new old i"
  by (auto simp add: highlight_step_def char_at_def marked_def Let_def)

lemma highlight_fold_fst:
  "concat (fst (fold (highlight_step old new) ns acc)) =
     concat (fst acc) @ concat (map (marked old new) ns)"
  by (induction ns arbitrary: acc) (simp_all add: highlight_step_fst)

lemma highlight_fold_snd:
  "concat (snd (fold (highlight_step old new) ns acc)) =
     concat (snd acc) @ concat (map (marked new old) ns)"
  by (induction ns arbitrary: acc) (simp_all add: highlight_step_snd)

lemma concat_singletons: "concat (map (\<lambda>i. [s ! i]) [0..<length s]) = s"
proof -
  have "concat (map (\<lambda>i. [s ! i]) [0..<length s]) = concat (map (\<lambda>x. [x]) (map ((!) s) [0..<length s]))"
    by (simp add: comp_def)
  also have "\<dots> = s" by (simp only: map_nth) simp
  finally show ?thesis .
qed

lemma positionwise_marking_same: "positionwise_marking s s = s"
proof -
  have "map (marked s s) [0..<length s] = map (\<lambda>i. [s ! i]) [0..<length s]"
    by (rule map_cong) (simp_all add: marked_def)
  then show ?thesis
    unfolding positionwise_marking_def by (simp only: max.idem concat_singletons)
qed

lemma highlight_diff_positionwise:
  "highlight_diff old new = (positionwise_marking old new, positionwise_marking new old)"
proof (cases "old = new")
  case True
  then show ?thesis by (simp add: highlight_diff_def positionwise_marking_same)
next
  case False
  then show ?thesis
    by (simp add: highlight_diff_def Let_def highlight_fold_fst highlight_fold_snd
        positionwise_marking_def max.commute)
qed

text \<open>
  Claim C7 (diff marking is positionwise). For all strings, each output of
  \<^verbatim>\<open>highlight_diff\<close> is the positionwise marking of one input against the other,
  over the positions \<open>0\<close> to \<open>max (len old) (len new) - 1\<close>: a character is wrapped in the
  markers exactly when the other string has another character, or none, at its position.
  \<^verbatim>\<open>highlight_diff("ABC", "ABD")\<close> marks the third character only, in both outputs, and
  \<^verbatim>\<open>highlight_diff("AB", "ABC")\<close> marks the third character of the new string only.
\<close>

theorem diff_marking_positionwise:
  "highlight_diff old new = (positionwise_marking old new, positionwise_marking new old)
 \<and> highlight_diff ''ABC'' ''ABD'' = (''AB'' @ INVERT @ ''C'' @ RESET, ''AB'' @ INVERT @ ''D'' @ RESET)
 \<and> highlight_diff ''AB'' ''ABC'' = (''AB'', ''AB'' @ INVERT @ ''C'' @ RESET)"
  by (simp add: highlight_diff_positionwise positionwise_marking_def marked_def upt_rec)

theorem diff_marking_positionwise_witness:
  "fst (highlight_diff ''3031'' ''30'') = ''30'' @ INVERT @ ''3'' @ RESET @ INVERT @ ''1'' @ RESET
 \<and> snd (highlight_diff ''3031'' ''30'') = ''30''"
  using diff_marking_positionwise [of "''3031''" "''30''"]
  by (simp add: positionwise_marking_def marked_def upt_rec)

text \<open>
  Claim C8 (identity on equal inputs). For every string \<open>s\<close>,
  \<^verbatim>\<open>highlight_diff(s, s)\<close> is the pair \<open>(s, s)\<close>: no marker is inserted.
\<close>

theorem highlight_diff_same: "highlight_diff s s = (s, s)"
  by (simp add: highlight_diff_def)

subsection \<open>Stripping the markers\<close>

lemma render_Cons:
  "render (t # ts) = (if fst t then INVERT @ [snd t] @ RESET else [snd t]) @ render ts"
  by (cases t) simp

lemma prefix_render:
  "CHR 0x1B \<notin> set p \<Longrightarrow> prefix p (render ts) \<Longrightarrow> prefix p (map snd ts)"
proof (induction p arbitrary: ts)
  case Nil
  show ?case by simp
next
  case (Cons x p)
  show ?case
  proof (cases ts)
    case Nil
    with Cons.prems show ?thesis by simp
  next
    case (Cons t ts')
    obtain b c where t: "t = (b, c)" by (cases t)
    show ?thesis
    proof (cases b)
      case True
      with Cons.prems Cons t show ?thesis by (simp add: INVERT_def)
    next
      case False
      with Cons.prems Cons t have "x = c" "prefix p (render ts')" by simp_all
      moreover from Cons.prems have "CHR 0x1B \<notin> set p" by simp
      ultimately show ?thesis using Cons.IH Cons t by simp
    qed
  qed
qed

lemma prefix_render_tail:
  "CHR 0x1B \<notin> set p \<Longrightarrow> prefix p (render_tail ts) \<Longrightarrow> prefix p (map snd ts)"
proof (induction p arbitrary: ts)
  case Nil
  show ?case by simp
next
  case (Cons x p)
  show ?case
  proof (cases ts)
    case Nil
    with Cons.prems show ?thesis by simp
  next
    case (Cons t ts')
    obtain b c where t: "t = (b, c)" by (cases t)
    from Cons.prems Cons t have xc: "x = c" by simp
    from Cons.prems have esc: "CHR 0x1B \<notin> set p" by simp
    show ?thesis
    proof (cases b)
      case True
      with Cons.prems Cons t xc have "prefix p (RESET @ render_tail ts')" by simp
      with esc have "p = []" by (cases p) (simp_all add: RESET_def)
      with Cons t xc show ?thesis by simp
    next
      case False
      with Cons.prems Cons t have "prefix p (render_tail ts')" by simp
      with esc Cons.IH have "prefix p (map snd ts')" by blast
      with Cons t xc show ?thesis by simp
    qed
  qed
qed

lemma remove_INVERT_render:
  "\<not> occurs_in INVERT (map snd ts) \<Longrightarrow> remove_all INVERT (render ts) = render_tail ts"
proof (induction ts)
  case Nil
  show ?case by simp
next
  case (Cons t ts)
  obtain b c where t: "t = (b, c)" by (cases t)
  from Cons.prems t have np: "\<not> prefix INVERT (c # map snd ts)"
    and no: "\<not> occurs_in INVERT (map snd ts)" by simp_all
  from no Cons.IH have ih: "remove_all INVERT (render ts) = render_tail ts" by blast
  show ?case
  proof (cases b)
    case True
    with t ih show ?thesis by (simp add: INVERT_def RESET_def)
  next
    case False
    have "\<not> prefix INVERT (c # render ts)"
    proof
      assume "prefix INVERT (c # render ts)"
      then have c: "c = CHR 0x1B" and p: "prefix ''[7m'' (render ts)"
        by (simp_all add: INVERT_def)
      from p have "prefix ''[7m'' (map snd ts)" by (intro prefix_render) simp_all
      with c np show False by (simp add: INVERT_def)
    qed
    with False t ih show ?thesis by simp
  qed
qed

lemma remove_RESET_render_tail:
  "\<not> occurs_in RESET (map snd ts) \<Longrightarrow> remove_all RESET (render_tail ts) = map snd ts"
proof (induction ts)
  case Nil
  show ?case by simp
next
  case (Cons t ts)
  obtain b c where t: "t = (b, c)" by (cases t)
  from Cons.prems t have np: "\<not> prefix RESET (c # map snd ts)"
    and no: "\<not> occurs_in RESET (map snd ts)" by simp_all
  from no Cons.IH have ih: "remove_all RESET (render_tail ts) = map snd ts" by blast
  show ?case
  proof (cases b)
    case True
    with t ih show ?thesis by (simp add: RESET_def)
  next
    case False
    have "\<not> prefix RESET (c # render_tail ts)"
    proof
      assume "prefix RESET (c # render_tail ts)"
      then have c: "c = CHR 0x1B" and p: "prefix ''[0m'' (render_tail ts)"
        by (simp_all add: RESET_def)
      from p have "prefix ''[0m'' (map snd ts)" by (intro prefix_render_tail) simp_all
      with c np show False by (simp add: RESET_def)
    qed
    with False t ih show ?thesis by simp
  qed
qed

lemma strip_markers_render:
  "\<not> occurs_in INVERT (map snd ts) \<Longrightarrow> \<not> occurs_in RESET (map snd ts)
   \<Longrightarrow> strip_markers (render ts) = map snd ts"
  by (simp add: strip_markers_def remove_INVERT_render remove_RESET_render_tail)

lemma prefix_render_head:
  "CHR 0x1B \<notin> set p \<Longrightarrow> prefix p (render_head ts) \<Longrightarrow> prefix p (map snd ts)"
proof (induction p arbitrary: ts)
  case Nil
  show ?case by simp
next
  case (Cons x p)
  show ?case
  proof (cases ts)
    case Nil
    with Cons.prems show ?thesis by simp
  next
    case (Cons t ts')
    obtain b c where t: "t = (b, c)" by (cases t)
    show ?thesis
    proof (cases b)
      case True
      with Cons.prems Cons t show ?thesis by (simp add: INVERT_def)
    next
      case False
      with Cons.prems Cons t have "x = c" "prefix p (render_head ts')" by simp_all
      moreover from Cons.prems have "CHR 0x1B \<notin> set p" by simp
      ultimately show ?thesis using Cons.IH Cons t by simp
    qed
  qed
qed

lemma remove_RESET_render:
  "\<not> occurs_in RESET (map snd ts) \<Longrightarrow> remove_all RESET (render ts) = render_head ts"
proof (induction ts)
  case Nil
  show ?case by simp
next
  case (Cons t ts)
  obtain b c where t: "t = (b, c)" by (cases t)
  from Cons.prems t have np: "\<not> prefix RESET (c # map snd ts)"
    and no: "\<not> occurs_in RESET (map snd ts)" by simp_all
  from no Cons.IH have ih: "remove_all RESET (render ts) = render_head ts" by blast
  show ?case
  proof (cases b)
    case True
    with t ih show ?thesis by (simp add: INVERT_def RESET_def)
  next
    case False
    have "\<not> prefix RESET (c # render ts)"
    proof
      assume "prefix RESET (c # render ts)"
      then have c: "c = CHR 0x1B" and p: "prefix ''[0m'' (render ts)"
        by (simp_all add: RESET_def)
      from p have "prefix ''[0m'' (map snd ts)" by (intro prefix_render) simp_all
      with c np show False by (simp add: RESET_def)
    qed
    with False t ih show ?thesis by simp
  qed
qed

lemma remove_INVERT_render_head:
  "\<not> occurs_in INVERT (map snd ts) \<Longrightarrow> remove_all INVERT (render_head ts) = map snd ts"
proof (induction ts)
  case Nil
  show ?case by simp
next
  case (Cons t ts)
  obtain b c where t: "t = (b, c)" by (cases t)
  from Cons.prems t have np: "\<not> prefix INVERT (c # map snd ts)"
    and no: "\<not> occurs_in INVERT (map snd ts)" by simp_all
  from no Cons.IH have ih: "remove_all INVERT (render_head ts) = map snd ts" by blast
  have n: "\<not> prefix INVERT (c # render_head ts)"
  proof
    assume "prefix INVERT (c # render_head ts)"
    then have c: "c = CHR 0x1B" and p: "prefix ''[7m'' (render_head ts)"
      by (simp_all add: INVERT_def)
    from p have "prefix ''[7m'' (map snd ts)" by (intro prefix_render_head) simp_all
    with c np show False by (simp add: INVERT_def)
  qed
  then have plain: "remove_all INVERT (c # render_head ts) = c # map snd ts"
    using ih by simp
  show ?case
  proof (cases b)
    case True
    have "remove_all INVERT (INVERT @ c # render_head ts) = remove_all INVERT (c # render_head ts)"
      by (simp add: INVERT_def)
    with True t plain show ?thesis by simp
  next
    case False
    with t plain show ?thesis by simp
  qed
qed

lemma strip_reverse_order_render:
  "\<not> occurs_in INVERT (map snd ts) \<Longrightarrow> \<not> occurs_in RESET (map snd ts)
   \<Longrightarrow> remove_all INVERT (remove_all RESET (render ts)) = map snd ts"
  by (simp add: remove_RESET_render remove_INVERT_render_head)

lemma positionwise_marking_render:
  "positionwise_marking a b =
     render (map (\<lambda>i. (\<not> (i < length b \<and> a ! i = b ! i), a ! i)) [0..<length a])"
proof -
  have r: "render (map (\<lambda>i. (P i, g i)) ns) =
           concat (map (\<lambda>i. if P i then INVERT @ [g i] @ RESET else [g i]) ns)"
    for P :: "nat \<Rightarrow> bool" and g :: "nat \<Rightarrow> char" and ns
    by (induction ns) simp_all
  have m: "map (marked a b) [0..<max (length a) (length b)] =
           map (marked a b) [0..<length a] @ map (marked a b) [length a..<max (length a) (length b)]"
  proof -
    have "[0..<length a + (max (length a) (length b) - length a)] =
          [0..<length a] @ [length a..<length a + (max (length a) (length b) - length a)]"
      by (rule upt_add_eq_append) simp
    then have "[0..<max (length a) (length b)] =
          [0..<length a] @ [length a..<max (length a) (length b)]"
      by simp
    then show ?thesis by (simp only: map_append)
  qed
  have z: "concat (map (marked a b) [length a..<max (length a) (length b)]) = []"
    by (simp add: marked_def)
  have e: "map (marked a b) [0..<length a] =
        map (\<lambda>i. if \<not> (i < length b \<and> a ! i = b ! i) then INVERT @ [a ! i] @ RESET else [a ! i]) [0..<length a]"
    by (rule map_cong) (auto simp add: marked_def)
  show ?thesis
    unfolding positionwise_marking_def m concat_append z r e by simp
qed

text \<open>
  Claim C9 (marker-stripping round trip), as stated for all strings, fails on an input
  that contains a marker itself: stripping removes the input's own marker with the
  inserted ones, in either order of deletion.
\<close>

theorem marker_stripping_counterexample:
  "strip_markers (fst (highlight_diff (INVERT @ ''A'') (INVERT @ ''B''))) = ''A''
 \<and> strip_markers (fst (highlight_diff (INVERT @ ''A'') (INVERT @ ''B''))) \<noteq> INVERT @ ''A''
 \<and> remove_all INVERT (remove_all RESET (fst (highlight_diff (INVERT @ ''A'') (INVERT @ ''B''))))
       \<noteq> INVERT @ ''A''"
  by (simp add: strip_markers_def highlight_diff_positionwise positionwise_marking_def marked_def
      upt_rec INVERT_def RESET_def)

text \<open>
  Claim C9, amended. For all strings \<open>old\<close> and \<open>new\<close> in which neither marker sequence
  occurs, deleting the marker sequences from the two outputs of \<^verbatim>\<open>highlight_diff\<close>
  gives back \<open>old\<close> and \<open>new\<close>, whichever of the two sequences is deleted first.
\<close>

theorem marker_stripping_round_trip:
  assumes "\<not> occurs_in INVERT old" and "\<not> occurs_in RESET old"
    and "\<not> occurs_in INVERT new" and "\<not> occurs_in RESET new"
  shows "strip_markers (fst (highlight_diff old new)) = old
       \<and> strip_markers (snd (highlight_diff old new)) = new
       \<and> remove_all INVERT (remove_all RESET (fst (highlight_diff old new))) = old
       \<and> remove_all INVERT (remove_all RESET (snd (highlight_diff old new))) = new"
proof -
  have s: "map snd (map (\<lambda>i. (\<not> (i < length b \<and> a ! i = b ! i), a ! i)) [0..<length a]) = a"
    for a b :: string
    by (simp add: comp_def map_nth)
  have "strip_markers (positionwise_marking a b) = a
      \<and> remove_all INVERT (remove_all RESET (positionwise_marking a b)) = a"
    if "\<not> occurs_in INVERT a" "\<not> occurs_in RESET a" for a b
  proof -
    let ?ts = "map (\<lambda>i. (\<not> (i < length b \<and> a ! i = b ! i), a ! i)) [0..<length a]"
    from that have h: "\<not> occurs_in INVERT (map snd ?ts)" "\<not> occurs_in RESET (map snd ?ts)"
      by (simp_all only: s not_False_eq_True)
    from h have "strip_markers (render ?ts) = map snd ?ts" by (rule strip_markers_render)
    moreover from h have "remove_all INVERT (remove_all RESET (render ?ts)) = map snd ?ts"
      by (rule strip_reverse_order_render)
    ultimately show ?thesis by (simp only: positionwise_marking_render s simp_thms)
  qed
  with assms show ?thesis by (simp add: highlight_diff_positionwise)
qed

theorem marker_stripping_round_trip_witness:
  "strip_markers (fst (highlight_diff ''30[7m'' ''3A[0''))= ''30[7m''
 \<and> strip_markers (snd (highlight_diff ''30[7m'' ''3A[0'')) = ''3A[0''
 \<and> fst (highlight_diff ''30[7m'' ''3A[0'') \<noteq> ''30[7m''"
proof -
  have a: "\<not> occurs_in INVERT ''30[7m''" "\<not> occurs_in RESET ''30[7m''"
    "\<not> occurs_in INVERT ''3A[0''" "\<not> occurs_in RESET ''3A[0''"
    by (simp_all add: INVERT_def RESET_def)
  from marker_stripping_round_trip [OF a]
  show ?thesis
    by (simp add: highlight_diff_positionwise positionwise_marking_def marked_def upt_rec
        INVERT_def RESET_def)
qed

subsection \<open>Truncation\<close>

text \<open>
  Claim C10 (truncation postcondition). For \<open>max_length \<ge> 3\<close>,
  \<^verbatim>\<open>truncate_value\<close> returns the value unchanged when it is no longer than
  \<open>max_length\<close>, and otherwise its first \<open>max_length - 3\<close> characters followed by three
  dots, a string of length exactly \<open>max_length\<close>. For \<open>max_length < 3\<close> and a longer
  value the result is longer than \<open>max_length\<close>, as for \<^verbatim>\<open>truncate_value("abc", 2)\<close>,
  which is \<^verbatim>\<open>"ab..."\<close>.
\<close>

theorem truncate_value_post:
  "(3 \<le> m \<and> int (length v) \<le> m \<longrightarrow> truncate_value v m = v)
 \<and> (3 \<le> m \<and> m < int (length v) \<longrightarrow>
      truncate_value v m = take (nat (m - 3)) v @ ''...''
      \<and> int (length (truncate_value v m)) = m)
 \<and> (m < 3 \<and> m < int (length v) \<longrightarrow> m < int (length (truncate_value v m)))
 \<and> truncate_value ''abc'' 2 = ''ab...''"
  by (auto simp add: truncate_value_def slice_to_def)

theorem truncate_value_post_witness:
  "truncate_value ''3031'' 18 = ''3031''
 \<and> truncate_value ''0123456789'' 5 = ''01...''
 \<and> length (truncate_value ''0123456789'' 5) = 5
 \<and> truncate_value ''0123456789'' 0 = ''0123456...''
 \<and> (0::int) < int (length (truncate_value ''0123456789'' 0))"
  using truncate_value_post [of 18 "''3031''"]
    truncate_value_post [of 5 "''0123456789''"]
    truncate_value_post [of 0 "''0123456789''"]
  by (simp add: truncate_value_def slice_to_def)

end
